theory Spec2Isabelle
  imports Main "HOL-Library.Log_Nat" "HOL-Library.Multiset" "HOL-Library.Sublist"
begin

section \<open>Hypothetical Document Embeddings (langchain/chains/hyde/base.py)\<close>

text \<open>
  The class \<^verbatim>\<open>HypotheticalDocumentEmbedder\<close> asks a language model for hypothetical
  documents answering a query, embeds them with a base embedding model and averages the
  vectors with numpy: \<^verbatim>\<open>list(np.array(embeddings).mean(axis=0))\<close>.
  The theory models, in this order: the float64 values numpy computes with, the three
  numpy operations the class calls, the collaborators (prompt template, language model,
  LLM chain, embedding model), and the methods of the class.
\<close>

subsection \<open>Exceptions\<close>

text \<open>
  Every way a method of the class can stop with an exception is a value of \<open>error\<close>;
  a method returns \<open>error + 'a\<close>, with \<open>Inl\<close> for the exception.
  \<^item> \<open>ValueError msg\<close>: the only \<^verbatim>\<open>raise\<close> statement of the file, in
    \<^verbatim>\<open>from_llm\<close>, with its message;
  \<^item> \<open>InhomogeneousShape\<close>: the \<^verbatim>\<open>ValueError\<close> of \<^verbatim>\<open>np.array\<close> on rows of
    different lengths (numpy 1.24 and later, the versions modelled here; earlier
    versions do not refuse such rows);
  \<^item> \<open>NotIterable\<close>: the \<^verbatim>\<open>TypeError\<close> of \<^verbatim>\<open>list(x)\<close> on a numpy scalar
    (\<^verbatim>\<open>'numpy.float64' object is not iterable\<close>);
  \<^item> \<open>IndexError\<close>: Python's \<^verbatim>\<open>xs[0]\<close> on an empty list;
  \<^item> \<open>Failure name\<close>: an exception raised inside a collaborator (the language model,
    the embedding model); the class catches nothing, so it reaches the caller unchanged.
\<close>

datatype error =
    ValueError string
  | InhomogeneousShape
  | NotIterable
  | IndexError
  | Failure string

subsection \<open>float64\<close>

text \<open>
  A Python float is an IEEE 754 binary64 value: a finite number, an infinity or a NaN.
  Finite values are modelled by the rational number they denote; the two zeros are one
  value (Python's \<^verbatim>\<open>==\<close> does not tell them apart either) and the NaNs are one value,
  equal to itself (where Python's \<^verbatim>\<open>==\<close> answers False for every comparison with a NaN).
  \<open>round64\<close> is rounding to nearest, ties to even, with 53 significant bits, the
  exponent range of binary64: below \<open>2^-1022\<close> the spacing stays \<open>2^-1074\<close> (gradual
  underflow), and a value that rounds to \<open>2^1024\<close> or beyond becomes an infinity.
\<close>

datatype float64 = Num rat | PosInf | NegInf | NaN

definition pow2 :: "int \<Rightarrow> rat" where
  "pow2 e = (if 0 \<le> e then 2 ^ nat e else 1 / 2 ^ nat (- e))"

definition ilog2 :: "rat \<Rightarrow> int" where
  \<comment> \<open>the integer \<open>e\<close> with \<open>2^e \<le> a < 2^(e+1)\<close>, for \<open>a > 0\<close>\<close>
  "ilog2 a = (case quotient_of a of (p, q) \<Rightarrow>
     (let b = bitlen p - bitlen q in if pow2 b \<le> a then b else b - 1))"

definition round_half_even :: "rat \<Rightarrow> int" where
  "round_half_even x =
     (let f = \<lfloor>x\<rfloor>; d = x - of_int f
      in if d < 1 / 2 then f
         else if 1 / 2 < d then f + 1
         else if even f then f else f + 1)"

definition round64 :: "rat \<Rightarrow> float64" where
  "round64 r =
     (if r = 0 then Num 0
      else
        let a = \<bar>r\<bar>;
            e = max (ilog2 a) (- 1022);
            q = pow2 (e - 52);
            n = round_half_even (a / q)
        in if 1023 < e \<or> (e = 1023 \<and> n = 2 ^ 53) then (if 0 < r then PosInf else NegInf)
           else Num (if 0 < r then of_int n * q else - (of_int n * q)))"

fun is_float64 :: "float64 \<Rightarrow> bool" where
  \<comment> \<open>the values a Python float can hold: rounding leaves a finite one as it is\<close>
  "is_float64 (Num r) = (round64 r = Num r)"
| "is_float64 _ = True"

fun fadd :: "float64 \<Rightarrow> float64 \<Rightarrow> float64" where
  "fadd NaN _ = NaN"
| "fadd _ NaN = NaN"
| "fadd PosInf NegInf = NaN"
| "fadd NegInf PosInf = NaN"
| "fadd PosInf _ = PosInf"
| "fadd _ PosInf = PosInf"
| "fadd NegInf _ = NegInf"
| "fadd _ NegInf = NegInf"
| "fadd (Num a) (Num b) = round64 (a + b)"

fun fdiv_count :: "float64 \<Rightarrow> nat \<Rightarrow> float64" where
  \<comment> \<open>\<^verbatim>\<open>np.true_divide(x, n)\<close> for an element count \<open>n\<close> (exact as a float64 below \<open>2^53\<close>)\<close>
  "fdiv_count NaN n = NaN"
| "fdiv_count PosInf n = PosInf"
| "fdiv_count NegInf n = NegInf"
| "fdiv_count (Num a) n =
     (if n = 0 then (if a = 0 then NaN else if 0 < a then PosInf else NegInf)
      else round64 (a / of_nat n))"

subsection \<open>numpy: array, mean(axis=0), list\<close>

text \<open>
  \<^verbatim>\<open>np.array\<close> on a list of lists of floats: the empty list gives the one-dimensional
  array of shape \<open>(0,)\<close>; \<open>N \<ge> 1\<close> rows of one length \<open>D\<close> give the two-dimensional array
  of shape \<open>(N, D)\<close>; rows of different lengths are refused.
\<close>

datatype ndarray =
    Shape1 "float64 list"
  | Shape2 nat "float64 list list"
    \<comment> \<open>the number of columns, and the rows (their number is the length of the list)\<close>

fun np_array :: "float64 list list \<Rightarrow> error + ndarray" where
  "np_array [] = Inr (Shape1 [])"
| "np_array (v # vs) =
     (if list_all (\<lambda>w. length w = length v) vs then Inr (Shape2 (length v) (v # vs))
      else Inl InhomogeneousShape)"

text \<open>
  \<^verbatim>\<open>a.mean(axis=0)\<close> is \<^verbatim>\<open>np.add.reduce(a, axis=0)\<close> divided by the number of items
  along axis 0. The reduction starts from the identity \<open>0.0\<close>. How it groups the
  additions depends on the layout of the array in memory:
  \<^item> for two or more columns it adds the rows one after the other, position by position
    (\<open>add_rows\<close>);
  \<^item> an array of one column lies in memory as the one-dimensional array of its items,
    and a one-dimensional array is summed by numpy's pairwise summation
    (\<^verbatim>\<open>DOUBLE_pairwise_sum\<close>): fewer than 8 items are added from left to right; up to
    128 items are added into 8 accumulators, item \<open>i\<close> into accumulator \<open>i mod 8\<close>, the
    accumulators are added as \<open>((r0 + r1) + (r2 + r3)) + ((r4 + r5) + (r6 + r7))\<close> and
    the items beyond the last full block of 8 are added to that; more than 128 items
    are split near the middle, at a multiple of 8. The loop runs over at most 8192 items
    at a time, the size of numpy's buffer, and adds the sum of each run to the result.
  Reducing the only axis of a one-dimensional array leaves a scalar; for the empty array
  that is \<open>0.0 / 0 = nan\<close>.
\<close>

fun add_rows :: "float64 list \<Rightarrow> float64 list list \<Rightarrow> float64 list" where
  "add_rows acc [] = acc"
| "add_rows acc (row # rows) = add_rows (map2 fadd acc row) rows"

fun blocks8 :: "nat \<Rightarrow> float64 list \<Rightarrow> float64 list list" where
  \<comment> \<open>the first \<open>k\<close> blocks of 8 items\<close>
  "blocks8 0 xs = []"
| "blocks8 (Suc k) xs = take 8 xs # blocks8 k (drop 8 xs)"

function pairwise_sum :: "float64 list \<Rightarrow> float64" where
  "pairwise_sum xs =
     (let n = length xs in
      if n < 8 then foldl fadd (Num 0) xs
      else if n \<le> 128 then
        (let r = add_rows (take 8 xs) (blocks8 (n div 8 - 1) (drop 8 xs));
             res = fadd (fadd (fadd (r ! 0) (r ! 1)) (fadd (r ! 2) (r ! 3)))
                        (fadd (fadd (r ! 4) (r ! 5)) (fadd (r ! 6) (r ! 7)))
         in foldl fadd res (drop (8 * (n div 8)) xs))
      else
        (let n2 = n div 2 - (n div 2) mod 8
         in fadd (pairwise_sum (take n2 xs)) (pairwise_sum (drop n2 xs))))"
  by pat_completeness auto
termination
  by (relation "measure length") auto

function add_reduce :: "float64 \<Rightarrow> float64 list \<Rightarrow> float64" where
  \<comment> \<open>\<^verbatim>\<open>np.add.reduce\<close> of a one-dimensional array into the accumulator \<open>acc\<close>\<close>
  "add_reduce acc xs =
     (if xs = [] then acc
      else add_reduce (fadd acc (pairwise_sum (take 8192 xs))) (drop 8192 xs))"
  by pat_completeness auto
termination
  by (relation "measure (\<lambda>(acc, xs). length xs)") auto

definition add_reduce_axis0 :: "nat \<Rightarrow> float64 list list \<Rightarrow> float64 list" where
  \<comment> \<open>\<^verbatim>\<open>np.add.reduce(a, axis=0)\<close> for an array of \<open>d\<close> columns\<close>
  "add_reduce_axis0 d rows =
     (if d = 1 then [add_reduce (Num 0) (concat rows)]
      else add_rows (replicate d (Num 0)) rows)"

datatype np_value =
    Scalar float64
  | Array "float64 list"

fun mean_axis0 :: "ndarray \<Rightarrow> np_value" where
  "mean_axis0 (Shape1 xs) = Scalar (fdiv_count (add_reduce (Num 0) xs) (length xs))"
| "mean_axis0 (Shape2 d rows) =
     Array (map (\<lambda>s. fdiv_count s (length rows)) (add_reduce_axis0 d rows))"

fun py_list :: "np_value \<Rightarrow> error + float64 list" where
  "py_list (Scalar x) = Inl NotIterable"
| "py_list (Array xs) = Inr xs"

subsection \<open>The collaborators\<close>

text \<open>
  The prompt template, the language model and the embedding model are objects the caller
  supplies; each is the record of the methods the class calls on it. A generation is
  reduced to its \<^verbatim>\<open>text\<close>; \<^verbatim>\<open>LLMResult.generations\<close> holds one list of generations per
  submitted prompt.
\<close>

record generation =
  gen_text :: string

record llm_result =
  generations :: "generation list list"

record prompt_template =
  input_variables :: "string list"
  format_prompt :: "(string \<rightharpoonup> string) \<Rightarrow> error + string"

record language_model =
  generate_prompt :: "string list \<Rightarrow> error + llm_result"

record embeddings_model =
  base_embed_documents :: "string list \<Rightarrow> error + float64 list list"

record llm_chain =
  llm :: language_model
  prompt :: prompt_template
  input_keys :: "string list"
  generate :: "(string \<rightharpoonup> string) list \<Rightarrow> error + llm_result"

fun prep_prompts :: "prompt_template \<Rightarrow> (string \<rightharpoonup> string) list \<Rightarrow> error + string list" where
  "prep_prompts p [] = Inr []"
| "prep_prompts p (inputs # rest) =
     (case format_prompt p inputs of
        Inl e \<Rightarrow> Inl e
      | Inr s \<Rightarrow> (case prep_prompts p rest of Inl e \<Rightarrow> Inl e | Inr ss \<Rightarrow> Inr (s # ss)))"

definition LLMChain :: "language_model \<Rightarrow> prompt_template \<Rightarrow> llm_chain" where
  \<comment> \<open>Modelled from the spec: the class \<^verbatim>\<open>LLMChain\<close> (langchain/chains/llm.py) is not among
      the sources. Its input keys are the variables of its prompt, and \<^verbatim>\<open>generate\<close> renders
      the prompt once per input mapping and submits the rendered prompts to the model.\<close>
  "LLMChain l p =
     \<lparr>llm = l, prompt = p, input_keys = input_variables p,
      generate = (\<lambda>input_list.
        case prep_prompts p input_list of Inl e \<Rightarrow> Inl e | Inr ps \<Rightarrow> generate_prompt l ps)\<rparr>"

subsection \<open>HypotheticalDocumentEmbedder\<close>

record hyde =
  base_embeddings :: embeddings_model
  llm_chain :: llm_chain

definition hyde_input_keys :: "hyde \<Rightarrow> string list" where
  "hyde_input_keys self = input_keys (llm_chain self)"

definition embed_documents :: "hyde \<Rightarrow> string list \<Rightarrow> error + float64 list list" where
  "embed_documents self texts = base_embed_documents (base_embeddings self) texts"

definition combine_embeddings :: "float64 list list \<Rightarrow> error + float64 list" where
  "combine_embeddings embeddings =
     (case np_array embeddings of
        Inl e \<Rightarrow> Inl e
      | Inr a \<Rightarrow> py_list (mean_axis0 a))"

definition embed_query :: "hyde \<Rightarrow> string \<Rightarrow> error + float64 list" where
  "embed_query self text =
     (case input_keys (llm_chain self) of
        [] \<Rightarrow> Inl IndexError
      | var_name # _ \<Rightarrow>
         (case generate (llm_chain self) [[var_name \<mapsto> text]] of
            Inl e \<Rightarrow> Inl e
          | Inr result \<Rightarrow>
             (case generations result of
                [] \<Rightarrow> Inl IndexError
              | gens # _ \<Rightarrow>
                 (case embed_documents self (map gen_text gens) of
                    Inl e \<Rightarrow> Inl e
                  | Inr embeddings \<Rightarrow> combine_embeddings embeddings))))"

text \<open>
  \<^verbatim>\<open>from_llm\<close> reads the registry \<^verbatim>\<open>PROMPT_MAP\<close> of langchain/chains/hyde/prompts.py,
  which is not among the sources: the registry is a parameter, a dictionary given as the
  list of its items (with distinct keys) in insertion order. The message of the \<^verbatim>\<open>ValueError\<close> formats
  \<^verbatim>\<open>list(PROMPT_MAP.keys())\<close>, that is the \<^verbatim>\<open>repr\<close> of a list of strings. Keyword
  arguments beyond the four named ones are handed to the constructor of the class, where
  they configure the \<^verbatim>\<open>Chain\<close> base class (callbacks, memory, tags); they are not modelled.
\<close>

definition hex_digit :: "nat \<Rightarrow> char" where
  "hex_digit n = ''0123456789abcdef'' ! (n mod 16)"

definition printable :: "char \<Rightarrow> bool" where
  \<comment> \<open>\<^verbatim>\<open>str.isprintable\<close> on the code points below 256: all but the control characters
      (0 to 0x1F, 0x7F to 0x9F), the no-break space 0xA0 and the soft hyphen 0xAD\<close>
  "printable c =
     (let n = (of_char c :: nat)
      in 32 \<le> n \<and> \<not> (127 \<le> n \<and> n \<le> 160) \<and> n \<noteq> 173)"

definition repr_char :: "char \<Rightarrow> char \<Rightarrow> string" where
  \<comment> \<open>one character of a string inside the quotes \<open>q\<close>\<close>
  "repr_char q c =
     (if c = CHR 0x5C then [CHR 0x5C, CHR 0x5C]
      else if c = q then [CHR 0x5C, q]
      else if c = CHR 0x09 then [CHR 0x5C, CHR ''t'']
      else if c = CHR 0x0A then [CHR 0x5C, CHR ''n'']
      else if c = CHR 0x0D then [CHR 0x5C, CHR ''r'']
      else if \<not> printable c
        then [CHR 0x5C, CHR ''x'', hex_digit (of_char c div 16), hex_digit (of_char c)]
      else [c])"

definition py_repr :: "string \<Rightarrow> string" where
  \<comment> \<open>\<^verbatim>\<open>repr(s)\<close> of a string of code points below 256: single quotes, unless \<open>s\<close> holds
      a single quote and no double quote; characters that are not printable are escaped\<close>
  "py_repr s =
     (let q = (if CHR 0x27 \<in> set s \<and> CHR 0x22 \<notin> set s then CHR 0x22 else CHR 0x27)
      in [q] @ concat (map (repr_char q) s) @ [q])"

fun join :: "string \<Rightarrow> string list \<Rightarrow> string" where
  "join sep [] = []"
| "join sep [s] = s"
| "join sep (s # t # ss) = s @ sep @ join sep (t # ss)"

definition py_repr_list :: "string list \<Rightarrow> string" where
  "py_repr_list ss = ''['' @ join '', '' (map py_repr ss) @ '']''"

definition prompt_key_message :: "string list \<Rightarrow> string" where
  "prompt_key_message keys =
     ''Must specify prompt_key if custom_prompt not provided. Should be one of ''
       @ py_repr_list keys @ ''.''"

definition from_llm ::
  "(string \<times> prompt_template) list \<Rightarrow> language_model \<Rightarrow> embeddings_model \<Rightarrow>
     string option \<Rightarrow> prompt_template option \<Rightarrow> error + hyde" where
  "from_llm PROMPT_MAP l base prompt_key custom_prompt =
     (case
        (case custom_prompt of
           Some p \<Rightarrow> Inr p
         | None \<Rightarrow>
            (case prompt_key of
               None \<Rightarrow> Inl (ValueError (prompt_key_message (map fst PROMPT_MAP)))
             | Some k \<Rightarrow>
                (case map_of PROMPT_MAP k of
                   None \<Rightarrow> Inl (ValueError (prompt_key_message (map fst PROMPT_MAP)))
                 | Some p \<Rightarrow> Inr p)))
      of
        Inl e \<Rightarrow> Inl e
      | Inr p \<Rightarrow> Inr \<lparr>base_embeddings = base, llm_chain = LLMChain l p\<rparr>)"

subsection \<open>The properties, in the spec's words\<close>

text \<open>
  The arithmetic mean of \<open>N\<close> floats, computed in floating point, is a float64 sum of
  the \<open>N\<close> values divided by \<open>N\<close>. \<open>float_sum A s\<close> says that \<open>s\<close> is such a sum of the
  values \<open>A\<close>: float64 additions of the values, in some order and grouping, where \<open>0.0\<close>
  may be added in. The exact mean is the mean of the rational numbers the floats denote.
\<close>

definition component :: "nat \<Rightarrow> float64 list list \<Rightarrow> float64 list" where
  \<comment> \<open>the \<open>i\<close>-th components of the vectors, in the order of the vectors\<close>
  "component i embeddings = map (\<lambda>v. v ! i) embeddings"

inductive float_sum :: "float64 multiset \<Rightarrow> float64 \<Rightarrow> bool" where
  none: "float_sum {#} (Num 0)"
| one: "float_sum {#x#} x"
| plus: "float_sum A a \<Longrightarrow> float_sum B b \<Longrightarrow> float_sum (A + B) (fadd a b)"

definition float_mean :: "float64 list \<Rightarrow> float64 \<Rightarrow> bool" where
  "float_mean xs m = (\<exists>s. float_sum (mset xs) s \<and> m = fdiv_count s (length xs))"

fun is_finite :: "float64 \<Rightarrow> bool" where
  "is_finite (Num r) = True"
| "is_finite _ = False"

fun num_value :: "float64 \<Rightarrow> rat" where
  "num_value (Num r) = r"
| "num_value _ = 0"

definition exact_sum :: "float64 list \<Rightarrow> rat" where
  "exact_sum xs = sum_list (map num_value xs)"

definition exact_mean :: "float64 list \<Rightarrow> rat" where
  "exact_mean xs = exact_sum xs / of_nat (length xs)"

definition exactly_summable :: "float64 list \<Rightarrow> bool" where
  \<comment> \<open>the values are finite and the exact sum of any of them is a float64: whatever the
      order and the grouping, no addition of a sum of the values rounds\<close>
  "exactly_summable xs =
     (list_all is_finite xs
      \<and> list_all (\<lambda>ys. round64 (exact_sum ys) = Num (exact_sum ys)) (subseqs xs))"

subsection \<open>Stub collaborators\<close>

text \<open>
  Collaborators for the concrete runs below: a prompt with one variable, a language model
  that answers every prompt with the given documents, a chain whose model answers with
  several groups of generations, and an embedding model that maps \<^verbatim>\<open>"doc1"\<close> to
  \<open>[1.0, 3.0]\<close> and every other text to \<open>[3.0, 1.0]\<close>.
\<close>

definition stub_prompt :: "string \<Rightarrow> prompt_template" where
  "stub_prompt instruction =
     \<lparr>input_variables = [''QUESTION''],
      format_prompt = (\<lambda>inputs.
        case inputs ''QUESTION'' of
          None \<Rightarrow> Inl (Failure ''KeyError'')
        | Some q \<Rightarrow> Inr (instruction @ q))\<rparr>"

definition stub_llm :: "string list \<Rightarrow> language_model" where
  "stub_llm docs =
     \<lparr>generate_prompt = (\<lambda>prompts.
        Inr \<lparr>generations = map (\<lambda>p. map (\<lambda>d. \<lparr>gen_text = d\<rparr>) docs) prompts\<rparr>)\<rparr>"

definition stub_embeddings :: embeddings_model where
  "stub_embeddings =
     \<lparr>base_embed_documents = (\<lambda>texts.
        Inr (map (\<lambda>t. if t = ''doc1'' then [Num 1, Num 3] else [Num 3, Num 1]) texts))\<rparr>"

definition silent_embeddings :: embeddings_model where
  \<comment> \<open>an embedding model that returns no vector, whatever it is given\<close>
  "silent_embeddings = \<lparr>base_embed_documents = (\<lambda>texts. Inr [])\<rparr>"

definition two_key_chain :: llm_chain where
  \<comment> \<open>a chain that declares two input keys and returns two groups of generations\<close>
  "two_key_chain =
     \<lparr>llm = stub_llm [], prompt = stub_prompt [],
      input_keys = [''QUESTION'', ''CONTEXT''],
      generate = (\<lambda>input_list.
        if input_list = [[''QUESTION'' \<mapsto> ''what is X'']]
        then Inr \<lparr>generations = [[\<lparr>gen_text = ''doc1''\<rparr>, \<lparr>gen_text = ''doc2''\<rparr>],
                                 [\<lparr>gen_text = ''doc3''\<rparr>]]\<rparr>
        else Inl (Failure ''KeyError''))\<rparr>"

definition two_variable_prompt :: prompt_template where
  \<comment> \<open>a prompt that needs two variables and fails when one is not bound\<close>
  "two_variable_prompt =
     \<lparr>input_variables = [''QUESTION'', ''CONTEXT''],
      format_prompt = (\<lambda>inputs.
        case inputs ''QUESTION'' of
          None \<Rightarrow> Inl (Failure ''KeyError'')
        | Some q \<Rightarrow>
           (case inputs ''CONTEXT'' of
              None \<Rightarrow> Inl (Failure ''KeyError'')
            | Some c \<Rightarrow> Inr (c @ q)))\<rparr>"

definition stub_hyde :: "string list \<Rightarrow> hyde" where
  "stub_hyde docs =
     \<lparr>base_embeddings = stub_embeddings,
      llm_chain = LLMChain (stub_llm docs) (stub_prompt ''Answer: '')\<rparr>"

definition echo_llm :: language_model where
  \<comment> \<open>a language model that answers every prompt with the prompt itself\<close>
  "echo_llm =
     \<lparr>generate_prompt = (\<lambda>prompts.
        Inr \<lparr>generations = map (\<lambda>p. [\<lparr>gen_text = p\<rparr>]) prompts\<rparr>)\<rparr>"

section \<open>Properties\<close>

subsection \<open>The rounding on known values\<close>

text \<open>
  The float \<open>0.1\<close> is \<open>3602879701896397 / 2^55\<close>; \<open>0.1 + 0.2\<close> is the float
  \<open>0.30000000000000004\<close>, that is \<open>1351079888211149 / 2^52\<close>; and the mean of three
  vectors \<open>[0.1]\<close> is \<open>[0.10000000000000002]\<close>, that is \<open>7205759403792795 / 2^56\<close>.
  The mean of \<open>[1e17]\<close> and seven vectors \<open>[3.0]\<close>, one column of eight rows, is
  \<open>[1.2500000000000002e16]\<close>: the pairwise sum is \<open>1e17 + 16\<close>, where adding the rows
  one after the other would leave \<open>1e17\<close>.
\<close>

lemma round64_tenth: "round64 (1 / 10) = Num (3602879701896397 / 36028797018963968)"
  by code_simp

lemma tenth_plus_fifth:
  "fadd (Num (3602879701896397 / 36028797018963968)) (Num (3602879701896397 / 18014398509481984))
     = Num (1351079888211149 / 4503599627370496)"
  by code_simp


lemma three_tenths_mean:
  "combine_embeddings (replicate 3 [Num (3602879701896397 / 36028797018963968)])
     = Inr [Num (7205759403792795 / 72057594037927936)]"
  by code_simp

subsection \<open>The rounding\<close>

text \<open>
  \<open>ilog2\<close> finds the binade of a positive number; \<open>round64\<close> returns a float
  (rounding a float changes nothing) that lies within half a unit in the last place of
  its argument; sums and quotients of floats are floats.
\<close>

lemma pow2_powi: "pow2 e = 2 powi e"
  by (simp add: pow2_def power_int_def field_simps)

lemma pow2_pos: "0 < pow2 e"
  by (simp add: pow2_powi)

lemma pow2_add: "pow2 (a + b) = pow2 a * pow2 b"
  by (simp add: pow2_powi power_int_add)

lemma pow2_mono: "a \<le> b \<Longrightarrow> pow2 a \<le> pow2 b"
  by (simp add: pow2_powi power_int_increasing)

lemma pow2_strict_mono: "a < b \<Longrightarrow> pow2 a < pow2 b"
  by (simp add: pow2_powi power_int_strict_increasing)

lemma pow2_diff: "pow2 (a - b) = pow2 a / pow2 b"
  by (simp add: pow2_powi power_int_diff)

lemma bitlen_pow2_bounds:
  assumes "0 < n"
  shows "pow2 (bitlen n - 1) \<le> of_int n" and "of_int n < pow2 (bitlen n)"
proof -
  have b: "1 \<le> bitlen n"
    using assms by (simp add: bitlen_alt_def)
  from bitlen_bounds [OF assms]
  have lo: "2 ^ nat (bitlen n - 1) \<le> n" and hi: "n < 2 ^ nat (bitlen n)"
    by simp_all
  have "(of_int (2 ^ nat (bitlen n - 1)) :: rat) \<le> of_int n"
    using lo by (simp only: of_int_le_iff)
  then show "pow2 (bitlen n - 1) \<le> of_int n"
    using b by (simp add: pow2_def)
  have "(of_int n :: rat) < of_int (2 ^ nat (bitlen n))"
    using hi by (simp only: of_int_less_iff)
  then show "of_int n < pow2 (bitlen n)"
    using b by (simp add: pow2_def)
qed

lemma ilog2_bounds:
  assumes "0 < a"
  shows "pow2 (ilog2 a) \<le> a" and "a < pow2 (ilog2 a + 1)"
proof -
  obtain p q where pq: "quotient_of a = (p, q)"
    by (cases "quotient_of a") simp
  have q: "0 < q" using pq by (rule quotient_of_denom_pos)
  have a: "a = of_int p / of_int q" using pq by (rule quotient_of_div)
  have p: "0 < p" using assms a q by (simp add: zero_less_divide_iff)
  define b where "b = bitlen p - bitlen q"
  have qr: "(0::rat) < of_int q" using q by simp
  have "a < pow2 (bitlen p) / pow2 (bitlen q - 1)"
  proof -
    have "a < pow2 (bitlen p) / of_int q"
      unfolding a using bitlen_pow2_bounds(2) [OF p] qr by (simp add: divide_strict_right_mono)
    also have "\<dots> \<le> pow2 (bitlen p) / pow2 (bitlen q - 1)"
      using bitlen_pow2_bounds(1) [OF q] pow2_pos [of "bitlen p"] pow2_pos [of "bitlen q - 1"]
      by (simp add: frac_le)
    finally show ?thesis .
  qed
  then have upper: "a < pow2 (b + 1)"
    by (simp add: b_def flip: pow2_diff) (simp add: algebra_simps)
  have "pow2 (bitlen p - 1) / pow2 (bitlen q) < a"
  proof -
    have "pow2 (bitlen p - 1) / pow2 (bitlen q) < pow2 (bitlen p - 1) / of_int q"
      using bitlen_pow2_bounds(2) [OF q] qr pow2_pos [of "bitlen p - 1"]
      by (simp add: frac_less2)
    also have "\<dots> \<le> a"
      unfolding a using bitlen_pow2_bounds(1) [OF p] qr by (simp add: divide_right_mono)
    finally show ?thesis .
  qed
  then have lower: "pow2 (b - 1) < a"
    by (simp add: b_def flip: pow2_diff) (simp add: algebra_simps)
  have il: "ilog2 a = (if pow2 b \<le> a then b else b - 1)"
    by (simp add: ilog2_def pq b_def)
  show "pow2 (ilog2 a) \<le> a"
    using lower by (simp add: il)
  show "a < pow2 (ilog2 a + 1)"
    using upper by (simp add: il)
qed


lemma pow2_less_cancel: "pow2 a < pow2 b \<Longrightarrow> a < b"
proof (rule ccontr)
  assume "pow2 a < pow2 b" and "\<not> a < b"
  then show False
    using pow2_mono [of b a] by simp
qed

lemma ilog2_unique:
  assumes "0 < a" and "pow2 e \<le> a" and "a < pow2 (e + 1)"
  shows "ilog2 a = e"
proof -
  have "pow2 (ilog2 a) < pow2 (e + 1)"
    using ilog2_bounds(1) [OF assms(1)] assms(3) by simp
  then have "ilog2 a < e + 1"
    by (rule pow2_less_cancel)
  moreover have "pow2 e < pow2 (ilog2 a + 1)"
    using ilog2_bounds(2) [OF assms(1)] assms(2) by simp
  then have "e < ilog2 a + 1"
    by (rule pow2_less_cancel)
  ultimately show ?thesis by simp
qed

lemma round_half_even_of_int: "round_half_even (of_int n) = n"
  by (simp add: round_half_even_def)

lemma round_half_even_ge: "of_int k \<le> x \<Longrightarrow> k \<le> round_half_even x"
proof -
  assume "of_int k \<le> x"
  then have "k \<le> \<lfloor>x\<rfloor>" by (simp add: le_floor_iff)
  then show ?thesis by (simp add: round_half_even_def Let_def)
qed

lemma round_half_even_le: "x \<le> of_int k \<Longrightarrow> round_half_even x \<le> k"
proof (cases "x = of_int k")
  case True
  then show ?thesis by (simp add: round_half_even_of_int)
next
  case False
  assume "x \<le> of_int k"
  with False have "x < of_int k" by simp
  then have "\<lfloor>x\<rfloor> < k" by (simp add: floor_less_iff)
  then show ?thesis by (simp add: round_half_even_def Let_def)
qed


lemma pow2_numerals: "pow2 1 = 2" "pow2 52 = 2 ^ 52" "pow2 53 = 2 ^ 53"
  by (simp_all add: pow2_def)

lemma round64_positive:
  assumes "0 < v" and "max (ilog2 v) (- 1022) = e"
    and "round_half_even (v / pow2 (e - 52)) = n"
    and "e \<le> 1023" and "\<not> (e = 1023 \<and> n = 2 ^ 53)"
  shows "round64 v = Num (of_int n * pow2 (e - 52))"
    and "round64 (- v) = Num (- (of_int n * pow2 (e - 52)))"
  using assms by (auto simp add: round64_def Let_def)

text \<open>The grid of binary64: the multiples \<open>n * 2^(e - 52)\<close> a rounding can return.\<close>

lemma round64_grid:
  assumes "0 < n" and "- 1022 \<le> e" and "e \<le> 1023"
    and "of_int n \<le> (2::rat) ^ 53" and "e = - 1022 \<or> 2 ^ 52 \<le> n"
    and "\<not> (e = 1023 \<and> n = 2 ^ 53)"
  shows "round64 (of_int n * pow2 (e - 52)) = Num (of_int n * pow2 (e - 52))"
    and "round64 (- (of_int n * pow2 (e - 52))) = Num (- (of_int n * pow2 (e - 52)))"
proof -
  define q where "q = pow2 (e - 52)"
  define v where "v = of_int n * q"
  have q: "0 < q" by (simp add: q_def pow2_pos)
  have v: "0 < v" using assms(1) q by (simp add: v_def)
  have e52: "pow2 e = 2 ^ 52 * q"
    using pow2_add [of 52 "e - 52"] by (simp add: q_def pow2_numerals)
  have e53: "pow2 (e + 1) = 2 ^ 53 * q"
    using pow2_add [of 53 "e - 52"] by (simp add: q_def pow2_numerals add.commute)
  have q2: "pow2 (e + 1 - 52) = 2 * q"
    using pow2_add [of 1 "e - 52"] by (simp add: q_def pow2_numerals add.commute)
  have "round64 v = Num v \<and> round64 (- v) = Num (- v)"
  proof (cases "n = 2 ^ 53")
    case True
    then have vp: "v = pow2 (e + 1)"
      by (simp add: v_def e53)
    then have il: "ilog2 v = e + 1"
      using v pow2_strict_mono [of "e + 1" "e + 1 + 1"] by (intro ilog2_unique) simp_all
    have mx: "max (ilog2 v) (- 1022) = e + 1"
      using il assms(2) by simp
    have "v / pow2 (e + 1 - 52) = of_int (2 ^ 52)"
      using q True unfolding q2 by (simp add: v_def)
    then have rn: "round_half_even (v / pow2 (e + 1 - 52)) = 2 ^ 52"
      by (simp only: round_half_even_of_int)
    have e1: "e + 1 \<le> 1023" and ne: "\<not> (e + 1 = 1023 \<and> (2::int) ^ 52 = 2 ^ 53)"
      using True assms(3,6) by simp_all
    have vq: "of_int (2 ^ 52) * pow2 (e + 1 - 52) = v"
      using True unfolding q2 by (simp add: v_def)
    show ?thesis
      using round64_positive [OF v mx rn e1 ne] vq by simp
  next
    case False
    with assms(4) have n53: "n < 2 ^ 53"
      by (metis of_int_le_iff of_int_numeral of_int_power order_le_less)
    then have "(of_int n :: rat) < 2 ^ 53"
      by (metis of_int_less_iff of_int_numeral of_int_power)
    then have up: "v < pow2 (e + 1)"
      using q by (simp add: v_def e53)
    have rn: "round_half_even (v / pow2 (e - 52)) = n"
      using q by (simp add: v_def q_def round_half_even_of_int)
    have mx: "max (ilog2 v) (- 1022) = e"
    proof (cases "2 ^ 52 \<le> n")
      case True
      then have "(2::rat) ^ 52 \<le> of_int n"
        by (metis of_int_le_iff of_int_numeral of_int_power)
      then have "pow2 e \<le> v"
        using q by (simp add: v_def e52)
      then have "ilog2 v = e"
        using v up by (intro ilog2_unique)
      with assms(2) show ?thesis by simp
    next
      case False
      with assms(5) have e: "e = - 1022" by simp
      have "pow2 (ilog2 v) < pow2 (e + 1)"
        using ilog2_bounds(1) [OF v] up by simp
      then have "ilog2 v < e + 1"
        by (rule pow2_less_cancel)
      with e show ?thesis by simp
    qed
    have ne: "\<not> (e = 1023 \<and> n = 2 ^ 53)"
      using False by simp
    show ?thesis
      using round64_positive [OF v mx rn assms(3) ne] by (simp add: v_def q_def)
  qed
  then show "round64 (of_int n * pow2 (e - 52)) = Num (of_int n * pow2 (e - 52))"
    and "round64 (- (of_int n * pow2 (e - 52))) = Num (- (of_int n * pow2 (e - 52)))"
    by (simp_all add: v_def q_def)
qed


lemma round64_zero: "round64 0 = Num 0"
  by (simp add: round64_def)

lemma round64_is_float64: "is_float64 (round64 r)"
proof (cases "r = 0")
  case True
  then show ?thesis by (simp add: round64_zero)
next
  case False
  define a where "a = \<bar>r\<bar>"
  define e where "e = max (ilog2 a) (- 1022)"
  define q where "q = pow2 (e - 52)"
  define n where "n = round_half_even (a / q)"
  have a: "0 < a" using False by (simp add: a_def)
  have q: "0 < q" by (simp add: q_def pow2_pos)
  have e: "- 1022 \<le> e" by (simp add: e_def)
  have e52: "pow2 e = 2 ^ 52 * q"
    using pow2_add [of 52 "e - 52"] by (simp add: q_def pow2_numerals)
  have e53: "pow2 (e + 1) = 2 ^ 53 * q"
    using pow2_add [of 53 "e - 52"] by (simp add: q_def pow2_numerals add.commute)
  have r64: "round64 r =
      (if 1023 < e \<or> (e = 1023 \<and> n = 2 ^ 53) then (if 0 < r then PosInf else NegInf)
       else Num (if 0 < r then of_int n * q else - (of_int n * q)))"
    using False by (simp only: round64_def Let_def a_def e_def q_def n_def if_False)
  show ?thesis
  proof (cases "1023 < e \<or> (e = 1023 \<and> n = 2 ^ 53)")
    case True
    then show ?thesis by (simp add: r64)
  next
    case no_overflow: False
    have "a < pow2 (ilog2 a + 1)"
      using a by (rule ilog2_bounds)
    also have "\<dots> \<le> pow2 (e + 1)"
      by (rule pow2_mono) (simp add: e_def)
    finally have "a / q < 2 ^ 53"
      using q by (simp add: e53 pos_divide_less_eq)
    then have "a / q \<le> of_int (2 ^ 53)"
      by simp
    then have "n \<le> 2 ^ 53"
      unfolding n_def by (rule round_half_even_le)
    then have n53: "of_int n \<le> (2::rat) ^ 53"
      by (metis of_int_le_iff of_int_numeral of_int_power)
    have "of_int 0 \<le> a / q"
      using a q by simp
    then have n0: "0 \<le> n"
      unfolding n_def by (rule round_half_even_ge)
    have n52: "e = - 1022 \<or> 2 ^ 52 \<le> n"
    proof (cases "e = - 1022")
      case True
      then show ?thesis by simp
    next
      case False
      then have "e = ilog2 a"
        by (simp add: e_def max_def split: if_splits)
      then have "pow2 e \<le> a"
        using ilog2_bounds(1) [OF a] by simp
      then have "of_int (2 ^ 52) \<le> a / q"
        using q by (simp add: e52 pos_le_divide_eq)
      then have "2 ^ 52 \<le> n"
        unfolding n_def by (rule round_half_even_ge)
      then show ?thesis by simp
    qed
    show ?thesis
    proof (cases "n = 0")
      case True
      with no_overflow show ?thesis by (simp add: r64 round64_zero)
    next
      case False
      with n0 have pos: "0 < n" by simp
      have le: "e \<le> 1023" and ne: "\<not> (e = 1023 \<and> n = 2 ^ 53)"
        using no_overflow by simp_all
      have "round64 (of_int n * q) = Num (of_int n * q)"
        and "round64 (- (of_int n * q)) = Num (- (of_int n * q))"
        unfolding q_def by (rule round64_grid [OF pos e le n53 n52 ne])+
      with no_overflow show ?thesis by (simp add: r64)
    qed
  qed
qed

lemma fadd_is_float64: "is_float64 x \<Longrightarrow> is_float64 y \<Longrightarrow> is_float64 (fadd x y)"
  by (cases x; cases y) (simp_all add: round64_is_float64)

lemma fdiv_count_is_float64: "is_float64 (fdiv_count x n)"
  by (cases x) (simp_all add: round64_is_float64)

lemma combine_embeddings_is_float64:
  assumes "combine_embeddings embeddings = Inr r"
  shows "\<forall>x \<in> set r. is_float64 x"
proof (cases embeddings)
  case Nil
  with assms show ?thesis by (simp add: combine_embeddings_def)
next
  case (Cons v vs)
  with assms show ?thesis
    by (auto simp add: combine_embeddings_def fdiv_count_is_float64 split: if_splits)
qed


lemma round_half_even_error: "\<bar>of_int (round_half_even x) - x\<bar> \<le> 1 / 2"
proof -
  have "of_int \<lfloor>x\<rfloor> \<le> x" and "x < of_int \<lfloor>x\<rfloor> + 1"
    by linarith+
  then show ?thesis
    by (auto simp add: round_half_even_def Let_def abs_le_iff)
qed

lemma round64_error:
  assumes "round64 r = Num v"
  shows "\<bar>v - r\<bar> \<le> pow2 (max (ilog2 \<bar>r\<bar>) (- 1022) - 53)"
proof (cases "r = 0")
  case True
  with assms show ?thesis
    using pow2_pos [of "max (ilog2 \<bar>r\<bar>) (- 1022) - 53"] by (simp add: round64_zero)
next
  case False
  define e where "e = max (ilog2 \<bar>r\<bar>) (- 1022)"
  define q where "q = pow2 (e - 52)"
  define n where "n = round_half_even (\<bar>r\<bar> / q)"
  have q: "0 < q" by (simp add: q_def pow2_pos)
  have half: "pow2 (e - 53) = q / 2"
    using pow2_add [of 1 "e - 53"] by (simp add: q_def pow2_numerals)
  have r64: "round64 r =
      (if 1023 < e \<or> (e = 1023 \<and> n = 2 ^ 53) then (if 0 < r then PosInf else NegInf)
       else Num (if 0 < r then of_int n * q else - (of_int n * q)))"
    using False by (simp only: round64_def Let_def e_def q_def n_def if_False)
  from assms have v: "v = (if 0 < r then of_int n * q else - (of_int n * q))"
    by (simp add: r64 split: if_splits)
  have "\<bar>of_int n - \<bar>r\<bar> / q\<bar> \<le> 1 / 2"
    unfolding n_def by (rule round_half_even_error)
  then have "\<bar>of_int n - \<bar>r\<bar> / q\<bar> * q \<le> 1 / 2 * q"
    using q by (intro mult_right_mono) simp_all
  moreover have "\<bar>of_int n - \<bar>r\<bar> / q\<bar> * q = \<bar>of_int n * q - \<bar>r\<bar>\<bar>"
  proof -
    have "\<bar>of_int n - \<bar>r\<bar> / q\<bar> * q = \<bar>(of_int n - \<bar>r\<bar> / q) * q\<bar>"
      using q by (simp add: abs_mult)
    also have "(of_int n - \<bar>r\<bar> / q) * q = of_int n * q - \<bar>r\<bar>"
      using q by (simp add: left_diff_distrib)
    finally show ?thesis .
  qed
  ultimately have "\<bar>of_int n * q - \<bar>r\<bar>\<bar> \<le> q / 2"
    by simp
  then have "\<bar>v - r\<bar> \<le> q / 2"
  proof (cases "0 < r")
    case True
    assume "\<bar>of_int n * q - \<bar>r\<bar>\<bar> \<le> q / 2"
    with True show ?thesis by (simp add: v)
  next
    case neg: False
    assume "\<bar>of_int n * q - \<bar>r\<bar>\<bar> \<le> q / 2"
    with neg have "\<bar>of_int n * q + r\<bar> \<le> q / 2"
      by simp
    moreover have "v - r = - (of_int n * q + r)"
      using neg by (simp add: v)
    ultimately show ?thesis
      by (simp only: abs_minus)
  qed
  then show ?thesis
    by (simp add: half flip: e_def)
qed

lemma fadd_commute: "fadd x y = fadd y x"
  by (cases x; cases y) (simp_all add: add.commute)

declare pairwise_sum.simps [simp del]

declare add_reduce.simps [simp del]

subsection \<open>The sum numpy computes is a float sum of the items\<close>

lemma length_add_rows:
  "list_all (\<lambda>row. length row = length acc) rows \<Longrightarrow> length (add_rows acc rows) = length acc"
  by (induction rows arbitrary: acc) auto

lemma add_rows_nth:
  "list_all (\<lambda>row. length row = length acc) rows \<Longrightarrow> i < length acc \<Longrightarrow>
     add_rows acc rows ! i = foldl fadd (acc ! i) (component i rows)"
proof (induction rows arbitrary: acc)
  case Nil
  then show ?case by (simp add: component_def)
next
  case (Cons row rows)
  have len: "length (map2 fadd acc row) = length acc"
    using Cons.prems by simp
  have rest: "list_all (\<lambda>r. length r = length (map2 fadd acc row)) rows"
    using Cons.prems len by simp
  have "add_rows (map2 fadd acc row) rows ! i
          = foldl fadd (map2 fadd acc row ! i) (component i rows)"
    using Cons.IH [OF rest] Cons.prems(2) len by simp
  moreover have "map2 fadd acc row ! i = fadd (acc ! i) (row ! i)"
    using Cons.prems by simp
  ultimately show ?case by (simp add: component_def)
qed

lemma float_sum_foldl:
  "float_sum A a \<Longrightarrow> float_sum (A + mset xs) (foldl fadd a xs)"
proof (induction xs arbitrary: A a)
  case Nil
  then show ?case by simp
next
  case (Cons x xs)
  have "float_sum (A + {#x#}) (fadd a x)"
    using Cons.prems float_sum.one by (rule float_sum.plus)
  from Cons.IH [OF this] show ?case
    by (simp add: ac_simps)
qed

lemma mset_singletons: "(\<Sum>x\<leftarrow>xs. {#f x#}) = mset (map f xs)"
  by (induction xs) simp_all

lemma mset_components:
  "list_all (\<lambda>row. length row = L) rows \<Longrightarrow>
     (\<Sum>i\<leftarrow>[0..<L]. mset (component i rows)) = mset (concat rows)"
proof (induction rows)
  case Nil
  then show ?case by (simp add: component_def)
next
  case (Cons row rows)
  then have len: "length row = L" and rest: "list_all (\<lambda>row. length row = L) rows"
    by simp_all
  have "(\<Sum>i\<leftarrow>[0..<L]. mset (component i (row # rows)))
          = (\<Sum>i\<leftarrow>[0..<L]. {#row ! i#} + mset (component i rows))"
    by (simp add: component_def)
  also have "\<dots> = (\<Sum>i\<leftarrow>[0..<L]. {#row ! i#}) + (\<Sum>i\<leftarrow>[0..<L]. mset (component i rows))"
    by (rule sum_list_addf)
  also have "(\<Sum>i\<leftarrow>[0..<L]. {#row ! i#}) = mset row"
  proof -
    have "(\<Sum>i\<leftarrow>[0..<L]. {#row ! i#}) = mset (map (\<lambda>i. row ! i) [0..<length row])"
      unfolding len by (rule mset_singletons)
    then show ?thesis
      by (simp only: map_nth)
  qed
  finally show ?case
    using Cons.IH [OF rest] by simp
qed

lemma blocks8_facts:
  "8 * k \<le> length ys \<Longrightarrow>
     list_all (\<lambda>b. length b = 8) (blocks8 k ys) \<and> concat (blocks8 k ys) = take (8 * k) ys"
proof (induction k arbitrary: ys)
  case 0
  then show ?case by simp
next
  case (Suc k)
  then have "8 * k \<le> length (drop 8 ys)" by simp
  from Suc.IH [OF this] Suc.prems show ?case
    by (simp add: take_add [symmetric] min_def)
qed


lemma upt_8: "[0..<8] = [0, 1, 2, 3, 4, 5, 6, 7]"
  by (simp add: upt_rec)

lemma float_sum_accumulators:
  assumes "length r = 8" and "\<forall>i < 8. float_sum (A i) (r ! i)"
  shows "float_sum (\<Sum>i\<leftarrow>[0..<8]. A i)
           (fadd (fadd (fadd (r ! 0) (r ! 1)) (fadd (r ! 2) (r ! 3)))
                 (fadd (fadd (r ! 4) (r ! 5)) (fadd (r ! 6) (r ! 7))))"
proof -
  have s: "float_sum (A 0) (r ! 0)" "float_sum (A 1) (r ! 1)" "float_sum (A 2) (r ! 2)"
    "float_sum (A 3) (r ! 3)" "float_sum (A 4) (r ! 4)" "float_sum (A 5) (r ! 5)"
    "float_sum (A 6) (r ! 6)" "float_sum (A 7) (r ! 7)"
    using assms(2) by simp_all
  have "float_sum (((A 0 + A 1) + (A 2 + A 3)) + ((A 4 + A 5) + (A 6 + A 7)))
          (fadd (fadd (fadd (r ! 0) (r ! 1)) (fadd (r ! 2) (r ! 3)))
                (fadd (fadd (r ! 4) (r ! 5)) (fadd (r ! 6) (r ! 7))))"
    by (intro float_sum.plus s)
  then show ?thesis
    by (simp add: upt_8 ac_simps)
qed

lemma float_sum_pairwise: "float_sum (mset xs) (pairwise_sum xs)"
proof (induction xs rule: pairwise_sum.induct)
  case (1 xs)
  define n where "n = length xs"
  consider "n < 8" | "8 \<le> n" "n \<le> 128" | "128 < n"
    by linarith
  then show ?case
  proof cases
    case 1
    have "float_sum ({#} + mset xs) (foldl fadd (Num 0) xs)"
      using float_sum.none by (rule float_sum_foldl)
    with 1 show ?thesis
      by (subst pairwise_sum.simps) (simp add: n_def)
  next
    case 2
    define k where "k = n div 8 - 1"
    define blocks where "blocks = blocks8 k (drop 8 xs)"
    define r where "r = add_rows (take 8 xs) blocks"
    define rest where "rest = drop (8 * (n div 8)) xs"
    have k: "8 * k \<le> length (drop 8 xs)" and k8: "8 + 8 * k = 8 * (n div 8)"
      using 2 by (simp_all add: k_def n_def)
    have bl: "list_all (\<lambda>b. length b = 8) blocks"
      and cc: "concat blocks = take (8 * k) (drop 8 xs)"
      using blocks8_facts [OF k] by (simp_all add: blocks_def)
    have l8: "length (take 8 xs) = 8"
      using 2 by (simp add: n_def)
    have rows: "list_all (\<lambda>row. length row = length (take 8 xs)) blocks"
      using bl l8 by simp
    have lr: "length r = 8"
      using length_add_rows [OF rows] l8 by (simp add: r_def)
    have acc: "\<forall>i < 8. float_sum ({#take 8 xs ! i#} + mset (component i blocks)) (r ! i)"
    proof (intro allI impI)
      fix i :: nat
      assume i: "i < 8"
      have "r ! i = foldl fadd (take 8 xs ! i) (component i blocks)"
        unfolding r_def using rows i l8 by (intro add_rows_nth) simp_all
      then show "float_sum ({#take 8 xs ! i#} + mset (component i blocks)) (r ! i)"
        using float_sum_foldl [OF float_sum.one] by simp
    qed
    have "(\<Sum>i\<leftarrow>[0..<8]. {#take 8 xs ! i#} + mset (component i blocks))
            = (\<Sum>i\<leftarrow>[0..<8]. {#take 8 xs ! i#}) + (\<Sum>i\<leftarrow>[0..<8]. mset (component i blocks))"
      by (rule sum_list_addf)
    also have "(\<Sum>i\<leftarrow>[0..<8]. {#take 8 xs ! i#}) = mset (take 8 xs)"
    proof -
      have "(\<Sum>i\<leftarrow>[0..<8]. {#take 8 xs ! i#})
              = mset (map (\<lambda>i. take 8 xs ! i) [0..<length (take 8 xs)])"
        unfolding l8 by (rule mset_singletons)
      then show ?thesis
        by (simp only: map_nth)
    qed
    also have "(\<Sum>i\<leftarrow>[0..<8]. mset (component i blocks)) = mset (concat blocks)"
      using bl by (rule mset_components)
    finally have parts: "(\<Sum>i\<leftarrow>[0..<8]. {#take 8 xs ! i#} + mset (component i blocks))
                           = mset (take 8 xs) + mset (take (8 * k) (drop 8 xs))"
      by (simp add: cc)
    have "float_sum (mset (take 8 xs) + mset (take (8 * k) (drop 8 xs)))
            (fadd (fadd (fadd (r ! 0) (r ! 1)) (fadd (r ! 2) (r ! 3)))
                  (fadd (fadd (r ! 4) (r ! 5)) (fadd (r ! 6) (r ! 7))))"
      using float_sum_accumulators [OF lr acc] by (simp only: parts)
    then have "float_sum (mset (take 8 xs) + mset (take (8 * k) (drop 8 xs)) + mset rest)
            (foldl fadd (fadd (fadd (fadd (r ! 0) (r ! 1)) (fadd (r ! 2) (r ! 3)))
                              (fadd (fadd (r ! 4) (r ! 5)) (fadd (r ! 6) (r ! 7)))) rest)"
      by (rule float_sum_foldl)
    moreover have "mset (take 8 xs) + mset (take (8 * k) (drop 8 xs)) + mset rest = mset xs"
    proof -
      have "take 8 xs @ take (8 * k) (drop 8 xs) = take (8 + 8 * k) xs"
        by (simp add: take_add)
      then have "take 8 xs @ take (8 * k) (drop 8 xs) @ rest = xs"
        by (simp add: rest_def k8 flip: append_assoc)
      then have "mset (take 8 xs @ take (8 * k) (drop 8 xs) @ rest) = mset xs"
        by simp
      then show ?thesis
        by (simp add: ac_simps)
    qed
    moreover have "pairwise_sum xs
        = foldl fadd (fadd (fadd (fadd (r ! 0) (r ! 1)) (fadd (r ! 2) (r ! 3)))
                           (fadd (fadd (r ! 4) (r ! 5)) (fadd (r ! 6) (r ! 7)))) rest"
      using 2 by (subst pairwise_sum.simps)
        (simp add: Let_def r_def blocks_def k_def rest_def n_def)
    ultimately show ?thesis by simp
  next
    case 3
    define n2 where "n2 = n div 2 - (n div 2) mod 8"
    have "float_sum (mset (take n2 xs)) (pairwise_sum (take n2 xs))"
      and "float_sum (mset (drop n2 xs)) (pairwise_sum (drop n2 xs))"
      using 3 "1.IH" [of n n2] by (simp_all add: n_def n2_def)
    then have "float_sum (mset (take n2 xs) + mset (drop n2 xs))
                 (fadd (pairwise_sum (take n2 xs)) (pairwise_sum (drop n2 xs)))"
      by (rule float_sum.plus)
    moreover have "mset (take n2 xs) + mset (drop n2 xs) = mset xs"
      by (metis append_take_drop_id mset_append)
    moreover have "pairwise_sum xs = fadd (pairwise_sum (take n2 xs)) (pairwise_sum (drop n2 xs))"
      using 3 by (subst pairwise_sum.simps) (simp add: Let_def n2_def n_def)
    ultimately show ?thesis by simp
  qed
qed

lemma float_sum_add_reduce:
  "float_sum A acc \<Longrightarrow> float_sum (A + mset xs) (add_reduce acc xs)"
proof (induction acc xs arbitrary: A rule: add_reduce.induct)
  case (1 acc xs)
  show ?case
  proof (cases "xs = []")
    case True
    with "1.prems" show ?thesis
      by (subst add_reduce.simps) simp
  next
    case False
    have "float_sum (A + mset (take 8192 xs)) (fadd acc (pairwise_sum (take 8192 xs)))"
      using "1.prems" float_sum_pairwise by (rule float_sum.plus)
    from "1.IH" [OF False this]
    have "float_sum (A + mset (take 8192 xs) + mset (drop 8192 xs))
            (add_reduce (fadd acc (pairwise_sum (take 8192 xs))) (drop 8192 xs))" .
    moreover have "mset (take 8192 xs) + mset (drop 8192 xs) = mset xs"
      by (metis append_take_drop_id mset_append)
    ultimately show ?thesis
      using False by (subst add_reduce.simps) (simp add: ac_simps)
  qed
qed



subsection \<open>The combination, position by position\<close>

lemma np_array_rows:
  assumes "embeddings \<noteq> []" and "\<forall>v \<in> set embeddings. length v = D"
  shows "np_array embeddings = Inr (Shape2 D embeddings)"
proof (cases embeddings)
  case Nil
  with assms show ?thesis by simp
next
  case (Cons v vs)
  with assms show ?thesis by (simp add: list_all_iff)
qed

lemma concat_one_column:
  "\<forall>v \<in> set rows. length v = Suc 0 \<Longrightarrow> concat rows = component 0 rows"
proof (induction rows)
  case Nil
  then show ?case by (simp add: component_def)
next
  case (Cons v rows)
  then obtain x where "v = [x]"
    by (cases v) auto
  with Cons show ?case by (simp add: component_def)
qed

lemma length_add_reduce_axis0:
  "\<forall>v \<in> set rows. length v = D \<Longrightarrow> length (add_reduce_axis0 D rows) = D"
  using length_add_rows [of "replicate D (Num 0)" rows]
  by (simp add: add_reduce_axis0_def list_all_iff)

lemma float_sum_add_reduce_axis0:
  assumes "\<forall>v \<in> set rows. length v = D" and "i < D"
  shows "float_sum (mset (component i rows)) (add_reduce_axis0 D rows ! i)"
proof (cases "D = 1")
  case True
  with assms have "concat rows = component i rows"
    using concat_one_column [of rows] by simp
  moreover have "float_sum ({#} + mset (concat rows)) (add_reduce (Num 0) (concat rows))"
    using float_sum.none by (rule float_sum_add_reduce)
  ultimately show ?thesis
    using True assms(2) by (simp add: add_reduce_axis0_def)
next
  case False
  have rows: "list_all (\<lambda>row. length row = length (replicate D (Num 0))) rows"
    using assms(1) by (simp add: list_all_iff)
  have "add_rows (replicate D (Num 0)) rows ! i = foldl fadd (Num 0) (component i rows)"
    using add_rows_nth [OF rows, of i] assms(2) by simp
  moreover have "float_sum ({#} + mset (component i rows)) (foldl fadd (Num 0) (component i rows))"
    using float_sum.none by (rule float_sum_foldl)
  ultimately show ?thesis
    using False by (simp add: add_reduce_axis0_def)
qed

lemma combine_embeddings_rows:
  assumes "embeddings \<noteq> []" and "\<forall>v \<in> set embeddings. length v = D"
  shows "combine_embeddings embeddings
           = Inr (map (\<lambda>s. fdiv_count s (length embeddings)) (add_reduce_axis0 D embeddings))"
  using np_array_rows [OF assms] by (simp add: combine_embeddings_def)

lemma combine_embeddings_float_mean:
  assumes "embeddings \<noteq> []" and "\<forall>v \<in> set embeddings. length v = D" and "i < D"
  shows "\<exists>r. combine_embeddings embeddings = Inr r \<and> length r = D
           \<and> float_mean (component i embeddings) (r ! i)"
proof -
  have "float_mean (component i embeddings)
          (fdiv_count (add_reduce_axis0 D embeddings ! i) (length embeddings))"
    unfolding float_mean_def
    using float_sum_add_reduce_axis0 [OF assms(2,3)] by (auto simp: component_def)
  then show ?thesis
    using combine_embeddings_rows [OF assms(1,2)] length_add_reduce_axis0 [OF assms(2)] assms(3)
    by simp
qed


lemma combine_two_by_two:
  "combine_embeddings [[Num 1, Num 3], [Num 3, Num 1]] = Inr [Num 2, Num 2]"
  by code_simp

subsection \<open>Sums that do not round\<close>

lemma exact_sum_mset:
  "mset ys = mset xs \<Longrightarrow> exact_sum ys = exact_sum xs"
  unfolding exact_sum_def by (metis mset_map sum_mset_sum_list)

lemma subseqs_mset:
  "B \<subseteq># mset xs \<Longrightarrow> \<exists>ys \<in> set (subseqs xs). mset ys = B"
proof (induction xs arbitrary: B)
  case Nil
  then show ?case by simp
next
  case (Cons x xs)
  show ?case
  proof (cases "x \<in># B")
    case True
    then have "B - {#x#} \<subseteq># mset xs"
      using Cons.prems by (simp add: insert_subset_eq_iff subset_eq_diff_conv)
    from Cons.IH [OF this] obtain ys where "ys \<in> set (subseqs xs)" and "mset ys = B - {#x#}"
      by blast
    then have "x # ys \<in> set (subseqs (x # xs))" and "mset (x # ys) = B"
      using True by (simp_all add: Let_def)
    then show ?thesis by blast
  next
    case False
    then have "B \<subseteq># mset xs"
      using Cons.prems by (metis diff_single_trivial subset_eq_diff_conv mset.simps(2) add_mset_add_single)
    from Cons.IH [OF this] show ?thesis
      by (auto simp: Let_def)
  qed
qed

lemma exactly_summable_sub:
  assumes "exactly_summable xs" and "mset ys \<subseteq># mset xs"
  shows "round64 (exact_sum ys) = Num (exact_sum ys)" and "list_all is_finite ys"
proof -
  from subseqs_mset [OF assms(2)] obtain zs where zs: "zs \<in> set (subseqs xs)" "mset zs = mset ys"
    by blast
  then have "round64 (exact_sum zs) = Num (exact_sum zs)"
    using assms(1) by (simp add: exactly_summable_def list_all_iff)
  then show "round64 (exact_sum ys) = Num (exact_sum ys)"
    using exact_sum_mset [OF zs(2)] by simp
  have "set ys \<subseteq> set xs"
    using assms(2) by (metis set_mset_mono set_mset_mset)
  then show "list_all is_finite ys"
    using assms(1) by (auto simp: exactly_summable_def list_all_iff)
qed

lemma float_sum_exact:
  assumes "float_sum A s" and "exactly_summable xs" and "A \<subseteq># mset xs"
  shows "\<exists>ys. mset ys = A \<and> s = Num (exact_sum ys)"
  using assms
proof (induction rule: float_sum.induct)
  case none
  have "mset [] = ({#} :: float64 multiset) \<and> Num 0 = Num (exact_sum [])"
    by (simp add: exact_sum_def)
  then show ?case by blast
next
  case (one x)
  then have "mset [x] \<subseteq># mset xs" by simp
  from exactly_summable_sub(2) [OF one(1) this] obtain r where "x = Num r"
    by (cases x) simp_all
  then have "mset [x] = {#x#} \<and> x = Num (exact_sum [x])"
    by (simp add: exact_sum_def)
  then show ?case by blast
next
  case (plus A a B b)
  have "A \<subseteq># mset xs" and "B \<subseteq># mset xs"
    using plus.prems(2) by (metis subset_mset.le_iff_add subset_mset.order_trans union_commute mset_subset_eq_add_left)+
  with plus obtain ys zs where ys: "mset ys = A" "a = Num (exact_sum ys)"
    and zs: "mset zs = B" "b = Num (exact_sum zs)"
    by blast
  have "mset (ys @ zs) \<subseteq># mset xs"
    using plus.prems(2) ys(1) zs(1) by simp
  from exactly_summable_sub(1) [OF plus.prems(1) this]
  have "fadd a b = Num (exact_sum (ys @ zs))"
    using ys(2) zs(2) by (simp add: exact_sum_def)
  moreover have "mset (ys @ zs) = A + B"
    using ys(1) zs(1) by simp
  ultimately show ?case by blast
qed

lemma float_mean_exact:
  assumes "float_mean ys m" and "exactly_summable xs" and "mset ys = mset xs" and "xs \<noteq> []"
  shows "m = round64 (exact_mean xs)"
proof -
  from assms(1) obtain s where s: "float_sum (mset ys) s" "m = fdiv_count s (length ys)"
    by (auto simp: float_mean_def)
  have "mset ys \<subseteq># mset xs"
    using assms(3) by simp
  from float_sum_exact [OF s(1) assms(2) this] obtain zs
    where zs: "mset zs = mset ys" "s = Num (exact_sum zs)"
    by auto
  have "mset zs = mset xs"
    using zs(1) assms(3) by simp
  then have "s = Num (exact_sum xs)"
    using zs(2) exact_sum_mset [of zs xs] by simp
  moreover have "length ys = length xs"
    using assms(3) by (rule mset_eq_length)
  ultimately show ?thesis
    using s(2) assms(4) by (simp add: exact_mean_def)
qed





text \<open>
  Claim C8. For a non-empty list of vectors that all have length \<open>D\<close>, the vector
  \<^verbatim>\<open>combine_embeddings\<close> returns has length \<open>D\<close>.
\<close>

theorem combine_embeddings_length:
  assumes "embeddings \<noteq> []" and "\<forall>v \<in> set embeddings. length v = D"
  shows "\<exists>r. combine_embeddings embeddings = Inr r \<and> length r = D"
  using combine_embeddings_rows [OF assms] length_add_reduce_axis0 [OF assms(2)] by simp

theorem combine_embeddings_length_witness:
  "\<exists>r. combine_embeddings [[Num 1, Num 3], [Num 3, Num 1]] = Inr r \<and> length r = 2"
  using combine_embeddings_length [of "[[Num 1, Num 3], [Num 3, Num 1]]" 2]
  by simp

subsection \<open>One vector\<close>

lemma fadd_zero: "is_float64 x \<Longrightarrow> fadd (Num 0) x = x"
  by (cases x) simp_all

lemma fdiv_count_one: "is_float64 x \<Longrightarrow> fdiv_count x (Suc 0) = x"
  by (cases x) simp_all

lemma pairwise_sum_short: "length xs < 8 \<Longrightarrow> pairwise_sum xs = foldl fadd (Num 0) xs"
  by (subst pairwise_sum.simps) simp

lemma add_reduce_short:
  "xs \<noteq> [] \<Longrightarrow> length xs < 8 \<Longrightarrow> add_reduce acc xs = fadd acc (foldl fadd (Num 0) xs)"
  by (subst add_reduce.simps, subst add_reduce.simps) (simp add: pairwise_sum_short)

lemma map2_fadd_zeros:
  "\<forall>x \<in> set v. is_float64 x \<Longrightarrow> map2 fadd (replicate (length v) (Num 0)) v = v"
  by (rule nth_equalityI) (simp_all add: fadd_zero)

lemma add_reduce_axis0_single:
  assumes "\<forall>x \<in> set v. is_float64 x"
  shows "add_reduce_axis0 (length v) [v] = v"
proof (cases "length v = 1")
  case True
  then obtain x where v: "v = [x]"
    by (cases v) simp_all
  with assms have "is_float64 x" by simp
  then show ?thesis
    by (simp add: v add_reduce_axis0_def add_reduce_short fadd_zero)
next
  case False
  then show ?thesis
    using map2_fadd_zeros [OF assms] by (simp add: add_reduce_axis0_def)
qed


lemma is_float64_one: "is_float64 (Num 1)"
  by code_simp

lemma is_float64_three: "is_float64 (Num 3)"
  by code_simp

text \<open>
  Claim C5. Combining the list that holds one vector \<open>v\<close> of floats returns \<open>v\<close>: adding
  a float to \<open>0.0\<close> and dividing it by \<open>1\<close> are exact.
\<close>

theorem combine_embeddings_singleton:
  assumes "\<forall>x \<in> set v. is_float64 x"
  shows "combine_embeddings [v] = Inr v"
proof -
  have "combine_embeddings [v]
          = Inr (map (\<lambda>s. fdiv_count s (length [v])) (add_reduce_axis0 (length v) [v]))"
    by (rule combine_embeddings_rows) simp_all
  also have "map (\<lambda>s. fdiv_count s (length [v])) (add_reduce_axis0 (length v) [v]) = v"
    using assms by (simp add: add_reduce_axis0_single fdiv_count_one map_idI)
  finally show ?thesis .
qed

theorem combine_embeddings_singleton_witness:
  "combine_embeddings [[Num 1, Num 3]] = Inr [Num 1, Num 3]"
proof -
  have "\<forall>x \<in> set [Num 1, Num 3]. is_float64 x"
    using is_float64_one is_float64_three by simp
  then show ?thesis
    by (rule combine_embeddings_singleton)
qed

subsection \<open>Rows of different lengths\<close>

text \<open>
  Claim C9. If two of the vectors differ in length, \<^verbatim>\<open>combine_embeddings\<close> returns no
  vector: \<^verbatim>\<open>np.array\<close> refuses the rows.
\<close>

theorem combine_embeddings_unequal_lengths:
  assumes "v \<in> set embeddings" and "w \<in> set embeddings" and "length v \<noteq> length w"
  shows "combine_embeddings embeddings = Inl InhomogeneousShape"
proof (cases embeddings)
  case Nil
  with assms(1) show ?thesis by simp
next
  case (Cons u us)
  have "\<not> list_all (\<lambda>x. length x = length u) us"
  proof
    assume "list_all (\<lambda>x. length x = length u) us"
    then have "\<forall>x \<in> set embeddings. length x = length u"
      using Cons by (simp add: list_all_iff)
    with assms show False by auto
  qed
  with Cons show ?thesis by (simp add: combine_embeddings_def)
qed

theorem combine_embeddings_unequal_lengths_witness:
  "combine_embeddings [[Num 1, Num 3], [Num 3]] = Inl InhomogeneousShape"
  using combine_embeddings_unequal_lengths [of "[Num 1, Num 3]" "[[Num 1, Num 3], [Num 3]]" "[Num 3]"]
  by simp

subsection \<open>The order of the vectors\<close>

lemma add_reduce_axis0_pair:
  assumes "length w = length v"
    and "\<forall>x \<in> set v. is_float64 x" and "\<forall>x \<in> set w. is_float64 x"
  shows "add_reduce_axis0 (length v) [v, w] = map2 fadd v w"
proof (cases "length v = 1")
  case True
  with assms(1) obtain a b where v: "v = [a]" and w: "w = [b]"
    by (cases v; cases w) simp_all
  with assms have a: "is_float64 a" and b: "is_float64 b" by simp_all
  then have "is_float64 (fadd a b)"
    by (rule fadd_is_float64)
  then show ?thesis
    using a by (simp add: v w add_reduce_axis0_def add_reduce_short fadd_zero)
next
  case False
  then show ?thesis
    using map2_fadd_zeros [OF assms(2)] by (simp add: add_reduce_axis0_def)
qed

lemma map2_fadd_commute: "map2 fadd v w = map2 fadd w v"
proof (induction v arbitrary: w)
  case Nil
  then show ?case by simp
next
  case (Cons x v)
  then show ?case
    using fadd_commute [of x] by (cases w) simp_all
qed

lemma combine_embeddings_swap:
  assumes "length w = length v"
    and "\<forall>x \<in> set v. is_float64 x" and "\<forall>x \<in> set w. is_float64 x"
  shows "combine_embeddings [w, v] = combine_embeddings [v, w]"
proof -
  have "combine_embeddings [v, w]
          = Inr (map (\<lambda>s. fdiv_count s (length [v, w])) (add_reduce_axis0 (length v) [v, w]))"
    using assms(1) by (intro combine_embeddings_rows) simp_all
  moreover have "combine_embeddings [w, v]
          = Inr (map (\<lambda>s. fdiv_count s (length [w, v])) (add_reduce_axis0 (length w) [w, v]))"
    using assms(1) by (intro combine_embeddings_rows) simp_all
  moreover have "add_reduce_axis0 (length w) [w, v] = add_reduce_axis0 (length v) [v, w]"
    using add_reduce_axis0_pair [OF assms] add_reduce_axis0_pair [OF assms(1) [symmetric] assms(3,2)]
    by (simp add: map2_fadd_commute [of w v])
  ultimately show ?thesis by simp
qed

lemma perm_at_most_two:
  assumes "mset ys = mset xs" and "length xs \<le> 2"
  shows "ys = xs \<or> (\<exists>a b. xs = [a, b] \<and> ys = [b, a])"
proof -
  have len: "length ys = length xs"
    using assms(1) by (rule mset_eq_length)
  consider "xs = []" | a where "xs = [a]" | a b where "xs = [a, b]"
    using assms(2) by (cases xs; cases "tl xs") auto
  then show ?thesis
  proof cases
    case 1
    with len show ?thesis by simp
  next
    case 2
    with assms(1) show ?thesis by simp
  next
    case 3
    with len obtain c d where ys: "ys = [c, d]"
      by (cases ys; cases "tl ys") auto
    with 3 assms(1) have "(c = a \<and> d = b) \<or> (c = b \<and> d = a)"
      by (auto simp: add_eq_conv_ex)
    with 3 ys show ?thesis by auto
  qed
qed

lemma component_perm:
  "mset permuted = mset embeddings \<Longrightarrow>
     mset (component i permuted) = mset (component i embeddings)"
  by (metis component_def mset_map)

lemma combine_large_first:
  "combine_embeddings [[Num (10 ^ 17)], [Num 1], [Num (- (10 ^ 17))]] = Inr [Num 0]"
  by code_simp

lemma combine_large_cancelled:
  "combine_embeddings [[Num (10 ^ 17)], [Num (- (10 ^ 17))], [Num 1]]
     = Inr [Num (6004799503160661 / 18014398509481984)]"
  by code_simp

text \<open>
  The grouping matters as well as the order: in one column of eight rows, the rows
  \<open>1e17, -1e17, 1.0\<close> and five zeros have the mean \<open>0.125\<close>, and the same rows with a
  zero moved to the second place have the mean \<open>0.0\<close>, although adding either list from
  left to right would not round.
\<close>

lemma eight_rows_order:
  "combine_embeddings ([[Num (10 ^ 17)], [Num (- (10 ^ 17))], [Num 1]] @ replicate 5 [Num 0])
     = Inr [Num (1 / 8)]"
  "combine_embeddings ([[Num (10 ^ 17)], [Num 0], [Num (- (10 ^ 17))], [Num 1]] @ replicate 4 [Num 0])
     = Inr [Num 0]"
  by code_simp+

text \<open>
  Claim C6 says that \<^verbatim>\<open>combine_embeddings\<close> returns the same vector for every
  permutation of a non-empty list of vectors of one length. float64 addition rounds, so
  the sum depends on the order: for the vectors \<open>[1e17]\<close>, \<open>[1.0]\<close>, \<open>[-1e17]\<close> the sum
  \<open>1e17 + 1.0\<close> rounds to \<open>1e17\<close> and the mean is \<open>0.0\<close>, while with \<open>[1.0]\<close> last the
  mean is \<open>1.0 / 3\<close>, the float \<open>0.3333333333333333\<close>.
\<close>

theorem combine_embeddings_order_counterexample:
  "mset [[Num (10 ^ 17)], [Num (- (10 ^ 17))], [Num 1]]
     = mset [[Num (10 ^ 17)], [Num 1], [Num (- (10 ^ 17))]]
   \<and> combine_embeddings [[Num (10 ^ 17)], [Num 1], [Num (- (10 ^ 17))]] = Inr [Num 0]
   \<and> combine_embeddings [[Num (10 ^ 17)], [Num (- (10 ^ 17))], [Num 1]]
       = Inr [Num (6004799503160661 / 18014398509481984)]
   \<and> combine_embeddings [[Num (10 ^ 17)], [Num (- (10 ^ 17))], [Num 1]]
       \<noteq> combine_embeddings [[Num (10 ^ 17)], [Num 1], [Num (- (10 ^ 17))]]"
  unfolding combine_large_first combine_large_cancelled by simp

text \<open>
  Claim C6, amended. For a non-empty list of vectors of one length \<open>D\<close> and every
  permutation of it, \<^verbatim>\<open>combine_embeddings\<close> returns the same vector for both when the
  list holds at most two vectors of floats, or when at every position the exact sum of
  any of the components is a float64, so that no addition rounds in any order or grouping.
\<close>

theorem combine_embeddings_order_exact:
  assumes "embeddings \<noteq> []" and "\<forall>v \<in> set embeddings. length v = D"
    and "mset permuted = mset embeddings"
    and "(length embeddings \<le> 2 \<and> (\<forall>v \<in> set embeddings. \<forall>x \<in> set v. is_float64 x))
         \<or> (\<forall>i < D. exactly_summable (component i embeddings))"
  shows "combine_embeddings permuted = combine_embeddings embeddings"
  using assms(4)
proof
  assume two: "length embeddings \<le> 2 \<and> (\<forall>v \<in> set embeddings. \<forall>x \<in> set v. is_float64 x)"
  from perm_at_most_two [OF assms(3)] two
  consider "permuted = embeddings" | a b where "embeddings = [a, b]" "permuted = [b, a]"
    by blast
  then show ?thesis
  proof cases
    case 1
    then show ?thesis by simp
  next
    case 2
    have "length b = length a"
      using 2(1) assms(2) by simp
    moreover have "\<forall>x \<in> set a. is_float64 x" and "\<forall>x \<in> set b. is_float64 x"
      using 2(1) two by simp_all
    ultimately show ?thesis
      unfolding 2 by (rule combine_embeddings_swap)
  qed
next
  assume exact: "\<forall>i < D. exactly_summable (component i embeddings)"
  have "set permuted = set embeddings"
    using assms(3) by (rule mset_eq_setD)
  then have ne: "permuted \<noteq> []" and len: "\<forall>v \<in> set permuted. length v = D"
    using assms(1,2) by auto
  from combine_embeddings_length [OF assms(1,2)] obtain r
    where r: "combine_embeddings embeddings = Inr r" "length r = D"
    by blast
  from combine_embeddings_length [OF ne len] obtain p
    where p: "combine_embeddings permuted = Inr p" "length p = D"
    by blast
  have "p ! i = r ! i" if i: "i < D" for i
  proof -
    have col: "component i embeddings \<noteq> []"
      using assms(1) by (simp add: component_def)
    have ex: "exactly_summable (component i embeddings)"
      using exact i by simp
    from combine_embeddings_float_mean [OF assms(1,2) i] r(1)
    have rm: "float_mean (component i embeddings) (r ! i)"
      by simp
    from combine_embeddings_float_mean [OF ne len i] p(1)
    have pm: "float_mean (component i permuted) (p ! i)"
      by simp
    have "r ! i = round64 (exact_mean (component i embeddings))"
      using float_mean_exact [OF rm ex refl col] .
    moreover have "p ! i = round64 (exact_mean (component i embeddings))"
      using float_mean_exact [OF pm ex component_perm [OF assms(3)] col] .
    ultimately show ?thesis by simp
  qed
  then have "p = r"
    using r(2) p(2) by (intro nth_equalityI) simp_all
  with r(1) p(1) show ?thesis by simp
qed

lemma three_vectors:
  "exactly_summable (component 0 [[Num 1, Num 3], [Num 3, Num 1], [Num 2, Num 2]])"
  "exactly_summable (component 1 [[Num 1, Num 3], [Num 3, Num 1], [Num 2, Num 2]])"
  "combine_embeddings [[Num 1, Num 3], [Num 3, Num 1], [Num 2, Num 2]] = Inr [Num 2, Num 2]"
  by code_simp+

theorem combine_embeddings_order_exact_witness:
  "combine_embeddings [[Num 2, Num 2], [Num 1, Num 3], [Num 3, Num 1]]
     = combine_embeddings [[Num 1, Num 3], [Num 3, Num 1], [Num 2, Num 2]]
   \<and> combine_embeddings [[Num 1, Num 3], [Num 3, Num 1], [Num 2, Num 2]] = Inr [Num 2, Num 2]"
proof -
  have "mset [[Num 2, Num 2], [Num 1, Num 3], [Num 3, Num 1]]
          = mset [[Num 1, Num 3], [Num 3, Num 1], [Num 2, Num 2 :: float64]]"
    by simp
  moreover have "\<forall>i < 2. exactly_summable
      (component i [[Num 1, Num 3], [Num 3, Num 1], [Num 2, Num 2]])"
    using three_vectors(1,2) by (auto simp: less_2_cases_iff)
  ultimately have "combine_embeddings [[Num 2, Num 2], [Num 1, Num 3], [Num 3, Num 1]]
               = combine_embeddings [[Num 1, Num 3], [Num 3, Num 1], [Num 2, Num 2]]"
    by (intro combine_embeddings_order_exact [where D = 2]) simp_all
  then show ?thesis
    by (simp add: three_vectors(3))
qed

subsection \<open>Embedding documents\<close>

text \<open>
  Claim C7. For every sequence of document strings, \<^verbatim>\<open>embed_documents\<close> returns what
  the batch operation of the base embedding model returns for those strings: the same
  vectors in the same order (or the same exception), with nothing applied to them.
\<close>

theorem embed_documents_pass_through:
  "embed_documents self texts = base_embed_documents (base_embeddings self) texts"
  by (simp add: embed_documents_def)

theorem embed_documents_pass_through_witness:
  "embed_documents (stub_hyde []) [''doc1'', ''doc2'']
     = base_embed_documents stub_embeddings [''doc1'', ''doc2'']
   \<and> embed_documents (stub_hyde []) [''doc1'', ''doc2'']
       = Inr [[Num 1, Num 3], [Num 3, Num 1]]"
  using embed_documents_pass_through [of "stub_hyde []" "[''doc1'', ''doc2'']"]
  by (simp add: stub_hyde_def stub_embeddings_def)

subsection \<open>Embedding a query\<close>

text \<open>
  Claim C10. \<^verbatim>\<open>embed_query\<close> submits one mapping to the chain, which binds the query
  text to the first input key of the chain and to nothing else, whatever further input
  keys the chain declares. A failure of that call is the failure of \<^verbatim>\<open>embed_query\<close>;
  of its result only the first group of generations is embedded, whatever further
  groups it holds, and the vector returned is the combination of those embeddings.
\<close>

theorem embed_query_first_key_first_group:
  assumes "input_keys (llm_chain self) = var_name # further_keys"
  shows "embed_query self text =
           (case generate (llm_chain self) [[var_name \<mapsto> text]] of
              Inl e \<Rightarrow> Inl e
            | Inr result \<Rightarrow>
               (case generations result of
                  [] \<Rightarrow> Inl IndexError
                | gens # further_groups \<Rightarrow>
                   (case embed_documents self (map gen_text gens) of
                      Inl e \<Rightarrow> Inl e
                    | Inr embeddings \<Rightarrow> combine_embeddings embeddings)))"
  using assms by (simp add: embed_query_def)

theorem embed_query_first_key_first_group_witness:
  "embed_query \<lparr>base_embeddings = stub_embeddings, llm_chain = two_key_chain\<rparr> ''what is X''
     = Inr [Num 2, Num 2]
   \<and> embed_query
        \<lparr>base_embeddings = stub_embeddings,
         llm_chain = LLMChain (stub_llm [''doc1'']) two_variable_prompt\<rparr>
        ''what is X'' = Inl (Failure ''KeyError'')"
  using embed_query_first_key_first_group
    [of "\<lparr>base_embeddings = stub_embeddings, llm_chain = two_key_chain\<rparr>"
        "''QUESTION''" "[''CONTEXT'']" "''what is X''"]
    embed_query_first_key_first_group
    [of "\<lparr>base_embeddings = stub_embeddings,
          llm_chain = LLMChain (stub_llm [''doc1'']) two_variable_prompt\<rparr>"
        "''QUESTION''" "[''CONTEXT'']" "''what is X''"]
  by (simp add: two_key_chain_def embed_documents_def stub_embeddings_def combine_two_by_two
      LLMChain_def two_variable_prompt_def)

text \<open>
  Claim C2 says that, when the language model returns no candidate document,
  \<^verbatim>\<open>embed_query\<close> fails explicitly with an error dedicated to that condition. The class
  has no such error: the empty list of embeddings becomes an array of shape \<open>(0,)\<close>, its
  mean is the scalar \<open>nan\<close>, and \<^verbatim>\<open>list\<close> stops on the scalar with the \<^verbatim>\<open>TypeError\<close>
  it raises for any argument that is not iterable. The same exception ends a run in
  which a candidate was generated and the embedding model returned no vector.
\<close>

theorem embed_query_no_candidates_counterexample:
  "embed_query (stub_hyde []) ''what is X'' = Inl NotIterable
   \<and> embed_query
        \<lparr>base_embeddings = silent_embeddings,
         llm_chain = LLMChain (stub_llm [''doc1'']) (stub_prompt ''Answer: '')\<rparr>
        ''what is X'' = Inl NotIterable"
  by (simp add: embed_query_def stub_hyde_def LLMChain_def stub_llm_def stub_prompt_def
      embed_documents_def stub_embeddings_def silent_embeddings_def combine_embeddings_def)

text \<open>
  Claim C2, amended. When the first group of generations is empty and the embedding
  model returns no vector for no document, \<^verbatim>\<open>embed_query\<close> returns no vector: it stops
  with the \<^verbatim>\<open>TypeError\<close> of \<^verbatim>\<open>list\<close> on a numpy scalar.
\<close>

theorem embed_query_no_candidates:
  assumes "input_keys (llm_chain self) = var_name # further_keys"
    and "generate (llm_chain self) [[var_name \<mapsto> text]] = Inr result"
    and "generations result = [] # further_groups"
    and "base_embed_documents (base_embeddings self) [] = Inr []"
  shows "embed_query self text = Inl NotIterable"
  using assms by (simp add: embed_query_def embed_documents_def combine_embeddings_def)

theorem embed_query_no_candidates_witness:
  "embed_query \<lparr>base_embeddings = stub_embeddings, llm_chain = LLMChain (stub_llm []) (stub_prompt [])\<rparr>
     ''what is X'' = Inl NotIterable"
  using embed_query_no_candidates
    [of "\<lparr>base_embeddings = stub_embeddings, llm_chain = LLMChain (stub_llm []) (stub_prompt [])\<rparr>"
        "''QUESTION''" "[]" "''what is X''" "\<lparr>generations = [[]]\<rparr>" "[]"]
  by (simp add: LLMChain_def stub_llm_def stub_prompt_def stub_embeddings_def)

subsection \<open>Construction\<close>

text \<open>
  Claim C3. \<^verbatim>\<open>from_llm\<close> with a custom prompt builds the embedder whose chain has that
  prompt, whatever the prompt key and the registry are: the key is not looked at.
\<close>

theorem from_llm_custom_prompt:
  "from_llm PROMPT_MAP l base prompt_key (Some custom_prompt)
     = Inr \<lparr>base_embeddings = base, llm_chain = LLMChain l custom_prompt\<rparr>
   \<and> prompt (LLMChain l custom_prompt) = custom_prompt"
  by (simp add: from_llm_def LLMChain_def)

theorem from_llm_custom_prompt_witness:
  "\<exists>self. from_llm [(''web_search'', stub_prompt ''Search: '')] echo_llm stub_embeddings
             (Some ''web_search'') (Some (stub_prompt ''Custom: '')) = Inr self
      \<and> prompt (llm_chain self) = stub_prompt ''Custom: ''
      \<and> generate (llm_chain self) [[''QUESTION'' \<mapsto> ''what is X'']]
          = Inr \<lparr>generations = [[\<lparr>gen_text = ''Custom: what is X''\<rparr>]]\<rparr>"
  using from_llm_custom_prompt
    [of "[(''web_search'', stub_prompt ''Search: '')]" echo_llm stub_embeddings
        "Some ''web_search''" "stub_prompt ''Custom: ''"]
  by (simp add: LLMChain_def stub_prompt_def echo_llm_def)

lemma sublist_in_context: "sublist xs ys \<Longrightarrow> sublist xs (ps @ ys @ ss)"
proof -
  assume "sublist xs ys"
  then obtain p s where "ys = p @ xs @ s"
    by (auto simp: sublist_def)
  then have "ps @ ys @ ss = (ps @ p) @ xs @ (s @ ss)"
    by simp
  then show ?thesis
    unfolding sublist_def by blast
qed

lemma sublist_join: "s \<in> set ss \<Longrightarrow> sublist s (join sep ss)"
proof (induction sep ss rule: join.induct)
  case (1 sep)
  then show ?case by simp
next
  case (2 sep t)
  then show ?case by simp
next
  case (3 sep t u us)
  show ?case
  proof (cases "s = t")
    case True
    then show ?thesis by simp
  next
    case False
    with 3 have "sublist s (join sep (u # us))"
      by simp
    then have "sublist s ((t @ sep) @ join sep (u # us) @ [])"
      by (rule sublist_in_context)
    then show ?thesis by simp
  qed
qed

lemma message_names_key:
  assumes "k \<in> set keys"
  shows "sublist (py_repr k) (prompt_key_message keys)"
proof -
  have "sublist (py_repr k) (join '', '' (map py_repr keys))"
    using assms by (intro sublist_join) simp
  then have "sublist (py_repr k) (py_repr_list keys)"
    unfolding py_repr_list_def by (rule sublist_in_context)
  then show ?thesis
    unfolding prompt_key_message_def by (rule sublist_in_context)
qed

text \<open>
  Claim C4. \<^verbatim>\<open>from_llm\<close> with no custom prompt and with no prompt key, or with a key
  that is not in the registry, returns no embedder: it raises the \<^verbatim>\<open>ValueError\<close> whose
  message lists the keys of the registry, so the \<^verbatim>\<open>repr\<close> of every registered key
  stands in the message.
\<close>

theorem from_llm_missing_prompt:
  assumes "\<forall>k. prompt_key = Some k \<longrightarrow> k \<notin> fst ` set PROMPT_MAP"
  shows "from_llm PROMPT_MAP l base prompt_key None
           = Inl (ValueError (prompt_key_message (map fst PROMPT_MAP)))
         \<and> (\<forall>k \<in> fst ` set PROMPT_MAP.
              sublist (py_repr k) (prompt_key_message (map fst PROMPT_MAP)))"
proof
  show "from_llm PROMPT_MAP l base prompt_key None
          = Inl (ValueError (prompt_key_message (map fst PROMPT_MAP)))"
  proof (cases prompt_key)
    case None
    then show ?thesis by (simp add: from_llm_def)
  next
    case (Some k)
    with assms have "map_of PROMPT_MAP k = None"
      by (simp add: map_of_eq_None_iff)
    with Some show ?thesis by (simp add: from_llm_def)
  qed
next
  show "\<forall>k \<in> fst ` set PROMPT_MAP.
          sublist (py_repr k) (prompt_key_message (map fst PROMPT_MAP))"
    using message_names_key [of _ "map fst PROMPT_MAP"] by simp
qed

lemma message_two_keys:
  "prompt_key_message [''web_search'', ''sci_fact'']
     = ''Must specify prompt_key if custom_prompt not provided. Should be one of [''
         @ [CHR 0x27] @ ''web_search'' @ [CHR 0x27] @ '', ''
         @ [CHR 0x27] @ ''sci_fact'' @ [CHR 0x27] @ ''].''"
  by (simp add: prompt_key_message_def py_repr_list_def py_repr_def repr_char_def
      printable_def Let_def)

theorem from_llm_missing_prompt_witness:
  "from_llm [(''web_search'', stub_prompt ''Search: ''), (''sci_fact'', stub_prompt ''Claim: '')]
     echo_llm stub_embeddings (Some ''hyde'') None
     = Inl (ValueError
         (''Must specify prompt_key if custom_prompt not provided. Should be one of [''
           @ [CHR 0x27] @ ''web_search'' @ [CHR 0x27] @ '', ''
           @ [CHR 0x27] @ ''sci_fact'' @ [CHR 0x27] @ ''].''))
   \<and> sublist (py_repr ''sci_fact'') (prompt_key_message [''web_search'', ''sci_fact''])"
  using from_llm_missing_prompt
    [of "Some ''hyde''"
        "[(''web_search'', stub_prompt ''Search: ''), (''sci_fact'', stub_prompt ''Claim: '')]"
        echo_llm stub_embeddings]
  by (simp add: message_two_keys)

subsection \<open>The scenario of two documents\<close>

theorem embed_query_two_documents:
  "embed_query (stub_hyde [''doc1'', ''doc2'']) ''what is X'' = Inr [Num 2, Num 2]"
  by (simp add: embed_query_def stub_hyde_def LLMChain_def stub_llm_def stub_prompt_def
      embed_documents_def stub_embeddings_def combine_two_by_two)

end
